theory Spec2Isabelle
  imports Main "HOL-Library.Monad_Syntax" "HOL-Library.Sublist"
begin

section \<open>Data model\<close>

text \<open>
  A JavaScript \<open>Error\<close> is kept by its message. Request parameters are a JavaScript
  object, modelled as a map from keys to values; object spread \<open>{...a, ...b}\<close> is
  \<open>a ++ b\<close> and \<open>{...params, offset, limit}\<close> is a map update.
\<close>

datatype error = Error (message: string)

datatype pval = PNum nat | PStr string | PBool bool

type_synonym params = "string \<rightharpoonup> pval"

record request =
  req_endpoint :: string
  req_params :: params

text \<open>
  The body of a reply (\<open>response.data\<close>) is an object whose keys hold arrays of items;
  \<open>response[itemsKey]\<close> is the lookup of a key. The transport (\<open>axios.get\<close>) is a
  parameter: given a request and the state of the outside world it either raises or
  answers, and leaves a new state.
\<close>

type_synonym 'a response = "string \<rightharpoonup> 'a list"

type_synonym ('s, 'a) remote = "request \<Rightarrow> 's \<Rightarrow> (error + 'a response) \<times> 's"

datatype parent_ref = ParentRef (ref_id: string)

record community =
  comm_id :: string
  comm_name :: string
  description :: "string option"
  parent :: "parent_ref option"

section \<open>The client\<close>

text \<open>\<open>makeRequest\<close>: the reply's data on success; a failure is logged and thrown again.\<close>

definition makeRequest ::
  "('s, 'a) remote \<Rightarrow> string \<Rightarrow> params \<Rightarrow> 's \<Rightarrow> (error + 'a response) \<times> 's" where
  "makeRequest axios_get endpoint params s =
     (case axios_get \<lparr>req_endpoint = endpoint, req_params = params\<rparr> s of
        (Inr data, s') \<Rightarrow> (Inr data, s')
      | (Inl error, s') \<Rightarrow> (Inl error, s'))"

definition getCommunities ::
  "('s, 'a) remote \<Rightarrow> params \<Rightarrow> 's \<Rightarrow> (error + 'a response) \<times> 's" where
  "getCommunities axios_get params s =
     (let defaultParams =
            [''offset'' \<mapsto> PNum 0, ''limit'' \<mapsto> PNum 1000, ''sortField'' \<mapsto> PStr ''NAME'',
             ''sortOrder'' \<mapsto> PStr ''ASC'', ''excludeMeta'' \<mapsto> PBool True]
      in makeRequest axios_get ''/communities'' (defaultParams ++ params) s)"

text \<open>The test \<open>comm.parent && comm.parent.id === parentId\<close> of \<open>findDescendants\<close>.\<close>

definition is_child_of :: "community \<Rightarrow> string \<Rightarrow> bool" where
  "is_child_of comm parentId =
     (case parent comm of None \<Rightarrow> False | Some p \<Rightarrow> ref_id p = parentId)"

text \<open>
  \<open>findDescendants\<close> is a \<open>for\<close> loop over the whole listing that calls
  \<open>findDescendants\<close> again inside its body. The loop is the recursion on \<open>rest\<close>, the
  communities still to visit; \<open>descendants\<close> is the array the loop pushes to. This
  is the recursion on a call stack without a limit, where it need not end: the result
  is an option and \<open>None\<close> is a call that would recurse for ever. It says which list
  a call returns when it returns one; what a call does on the limited stack of a
  JavaScript engine is \<open>findDescendants_stack\<close> below.
\<close>

partial_function (option) findDescendants_loop ::
  "community list \<Rightarrow> community list \<Rightarrow> string \<Rightarrow> community list \<Rightarrow> community list option" where
  "findDescendants_loop communities rest parentId descendants =
     (case rest of
        [] \<Rightarrow> Some descendants
      | comm # rest' \<Rightarrow>
          if is_child_of comm parentId
          then do {
            children \<leftarrow> findDescendants_loop communities communities (comm_id comm) [];
            findDescendants_loop communities rest' parentId (descendants @ [comm] @ children)
          }
          else findDescendants_loop communities rest' parentId descendants)"

declare findDescendants_loop.simps [code]

definition findDescendants :: "community list \<Rightarrow> string \<Rightarrow> community list option" where
  "findDescendants communities parentId =
     findDescendants_loop communities communities parentId []"




text \<open>
  \<open>getAllSubcommunities\<close>: one call of \<open>getCommunities\<close> with \<open>limit: 1000\<close>, then the
  descent over \<open>response.results || []\<close>. The map \<open>communityMap\<close> and the array
  \<open>allCommunities\<close> of the source are never read and are left out.
\<close>

definition getAllSubcommunities ::
  "('s, community) remote \<Rightarrow> string \<Rightarrow> 's \<Rightarrow> ((error + community list) \<times> 's) option" where
  "getAllSubcommunities axios_get communityId s =
     (case getCommunities axios_get [''limit'' \<mapsto> PNum 1000] s of
        (Inl error, s') \<Rightarrow> Some (Inl error, s')
      | (Inr response, s') \<Rightarrow>
          (let communities = (case response ''results'' of Some xs \<Rightarrow> xs | None \<Rightarrow> [])
           in map_option (\<lambda>subcommunities. (Inr subcommunities, s'))
                (findDescendants communities communityId)))"

text \<open>\<open>getCommunityByName\<close>: \<open>null\<close> is \<open>None\<close>, a community is \<open>Some\<close>.\<close>

definition getCommunityByName ::
  "('s, 'a) remote \<Rightarrow> string \<Rightarrow> 's \<Rightarrow> (error + 'a option) \<times> 's" where
  "getCommunityByName axios_get name s =
     (case getCommunities axios_get
             [''name'' \<mapsto> PStr name, ''nameMatchMode'' \<mapsto> PStr ''EXACT''] s of
        (Inl error, s') \<Rightarrow> (Inl error, s')
      | (Inr response, s') \<Rightarrow>
          (let communities = (case response ''results'' of Some xs \<Rightarrow> xs | None \<Rightarrow> [])
           in if length communities = 0 then (Inr None, s')
              else (Inr (Some (communities ! 0)), s')))"

text \<open>
  \<open>fetchAllPages\<close>: the \<open>while (hasMore)\<close> loop, entered with \<open>allResults = []\<close>,
  \<open>offset = 0\<close> and \<open>hasMore = true\<close>. A source that only ever sends full pages keeps
  the loop running, so the result is an option. The progress notice on the console is
  left out.
\<close>

definition limit :: nat where
  "limit = 1000"

partial_function (option) fetchAllPages_loop ::
  "('s, 'a) remote \<Rightarrow> string \<Rightarrow> params \<Rightarrow> string \<Rightarrow> 'a list \<Rightarrow> nat \<Rightarrow> 's
     \<Rightarrow> ((error + 'a list) \<times> 's) option" where
  "fetchAllPages_loop axios_get endpoint params itemsKey allResults offset s =
     (case makeRequest axios_get endpoint
             (params(''offset'' \<mapsto> PNum offset, ''limit'' \<mapsto> PNum limit)) s of
        (Inl error, s') \<Rightarrow> Some (Inl error, s')
      | (Inr response, s') \<Rightarrow>
          (let items = (case response itemsKey of Some xs \<Rightarrow> xs | None \<Rightarrow> []);
               allResults' = allResults @ items;
               offset' = offset + limit;
               hasMore = (length items = limit)
           in if hasMore
              then fetchAllPages_loop axios_get endpoint params itemsKey allResults' offset' s'
              else Some (Inr allResults', s')))"

declare fetchAllPages_loop.simps [code]

definition fetchAllPages ::
  "('s, 'a) remote \<Rightarrow> string \<Rightarrow> params \<Rightarrow> string \<Rightarrow> 's \<Rightarrow> ((error + 'a list) \<times> 's) option" where
  "fetchAllPages axios_get endpoint params itemsKey s =
     fetchAllPages_loop axios_get endpoint params itemsKey [] 0 s"

section \<open>The interactive options\<close>

text \<open>
  \<open>configureExportOptions\<close> builds a list of questions and hands it to
  \<open>inquirer.prompt\<close>. The library asks the questions in order, skips a question whose
  \<open>when\<close> function is false on the answers so far, and records no answer for a skipped
  question; \<open>user\<close> is what the person at the terminal answers to a question. The
  answers object is the options record the exporters receive; \<open>truthy\<close> is the
  JavaScript test of a key of it.
\<close>

datatype answer = Confirm bool | Input string

type_synonym answers = "string \<rightharpoonup> answer"

record question =
  q_type :: string
  q_name :: string
  q_message :: string
  q_default :: answer
  q_when :: "(answers \<Rightarrow> bool) option"

fun prompt :: "(question \<Rightarrow> answer) \<Rightarrow> question list \<Rightarrow> answers \<Rightarrow> answers" where
  "prompt user [] answers = answers"
| "prompt user (q # questions) answers =
     (if (case q_when q of None \<Rightarrow> True | Some w \<Rightarrow> w answers)
      then prompt user questions (answers(q_name q \<mapsto> user q))
      else prompt user questions answers)"

definition truthy :: "answers \<Rightarrow> string \<Rightarrow> bool" where
  "truthy answers k = (case answers k of Some (Confirm b) \<Rightarrow> b | Some (Input t) \<Rightarrow> t \<noteq> [] | None \<Rightarrow> False)"

definition configureExportOptions :: "(question \<Rightarrow> answer) \<Rightarrow> bool \<Rightarrow> answers" where
  "configureExportOptions user useGraphQL =
     (let questions =
        [\<lparr>q_type = ''confirm'', q_name = ''includeAssets'', q_message = ''Include assets?'',
           q_default = Confirm True, q_when = None\<rparr>]
        @ (if useGraphQL then
             [\<lparr>q_type = ''confirm'', q_name = ''includeAttributes'',
                q_message = ''Include all asset attributes (string, numeric, date, etc.)?'',
                q_default = Confirm True,
                q_when = Some (\<lambda>answers. truthy answers ''includeAssets'')\<rparr>,
              \<lparr>q_type = ''confirm'', q_name = ''includeRelations'',
                q_message = ''Include asset relations (incoming & outgoing)?'',
                q_default = Confirm True,
                q_when = Some (\<lambda>answers. truthy answers ''includeAssets'')\<rparr>,
              \<lparr>q_type = ''confirm'', q_name = ''includeResponsibilities'',
                q_message = ''Include asset responsibilities (stewards, owners)?'',
                q_default = Confirm False,
                q_when = Some (\<lambda>answers. truthy answers ''includeAssets'')\<rparr>]
           else
             [\<lparr>q_type = ''confirm'', q_name = ''includeAttributes'',
                q_message = ''Include asset attributes?'',
                q_default = Confirm True,
                q_when = Some (\<lambda>answers. truthy answers ''includeAssets'')\<rparr>,
              \<lparr>q_type = ''confirm'', q_name = ''includeRelations'',
                q_message = ''Include asset relations?'',
                q_default = Confirm False,
                q_when = Some (\<lambda>answers. truthy answers ''includeAssets'')\<rparr>,
              \<lparr>q_type = ''confirm'', q_name = ''includeResponsibilities'',
                q_message = ''Include asset responsibilities (stewards, owners, etc.)?'',
                q_default = Confirm False,
                q_when = Some (\<lambda>answers. truthy answers ''includeAssets'')\<rparr>])
        @ [\<lparr>q_type = ''input'', q_name = ''outputDir'', q_message = ''Output directory:'',
             q_default = Input ''./exports'', q_when = None\<rparr>]
      in prompt user questions Map.empty)"

text \<open>The three sub-resource requests of the client.\<close>

definition getAssetAttributes ::
  "('s, 'a) remote \<Rightarrow> string \<Rightarrow> 's \<Rightarrow> (error + 'a response) \<times> 's" where
  "getAssetAttributes axios_get assetId s =
     makeRequest axios_get (''/assets/'' @ assetId @ ''/attributes'') Map.empty s"

definition getAssetRelations ::
  "('s, 'a) remote \<Rightarrow> string \<Rightarrow> params \<Rightarrow> 's \<Rightarrow> (error + 'a response) \<times> 's" where
  "getAssetRelations axios_get assetId params s =
     (let defaultParams = [''offset'' \<mapsto> PNum 0, ''limit'' \<mapsto> PNum 1000]
      in makeRequest axios_get (''/assets/'' @ assetId @ ''/relations'') (defaultParams ++ params) s)"

definition getAssetResponsibilities ::
  "('s, 'a) remote \<Rightarrow> string \<Rightarrow> params \<Rightarrow> 's \<Rightarrow> (error + 'a response) \<times> 's" where
  "getAssetResponsibilities axios_get assetId params s =
     (let defaultParams = [''offset'' \<mapsto> PNum 0, ''limit'' \<mapsto> PNum 1000]
      in makeRequest axios_get (''/assets/'' @ assetId @ ''/responsibilities'')
           (defaultParams ++ params) s)"

section \<open>The exporter\<close>

text \<open>
  The exporter class (\<open>collibraExporter.js\<close>) is not among the sources; only its
  caller \<open>main\<close> and the client it drives are.
\<close>

record asset =
  asset_id :: string
  asset_name :: string

record 'a enriched_asset =
  base :: asset
  attributes :: "'a list option"
  relations :: "'a list option"
  responsibilities :: "'a list option"

text \<open>
  Modelled from the spec: the Asset Aggregator (\<open>aggregate\<close>, section 4.3 and the
  invariant on ExportOptions of section 3), which is part of the missing exporter. With
  \<open>includeAssets\<close> false nothing is fetched. Otherwise the attributes, the relations
  and the responsibilities are fetched in this order, each only when its flag is set; the
  first failure is propagated; a requested facet is attached as a sequence, possibly
  empty (\<open>Some\<close>), a facet that was not requested is absent (\<open>None\<close>).
\<close>

definition sub_fetch ::
  "bool \<Rightarrow> ('s \<Rightarrow> (error + 'a response) \<times> 's) \<Rightarrow> 's \<Rightarrow> (error + 'a list option) \<times> 's" where
  "sub_fetch requested fetch s =
     (if requested
      then (case fetch s of
              (Inl e, s') \<Rightarrow> (Inl e, s')
            | (Inr response, s') \<Rightarrow>
                (Inr (Some (case response ''results'' of Some xs \<Rightarrow> xs | None \<Rightarrow> [])), s'))
      else (Inr None, s))"

definition aggregate ::
  "('s, 'a) remote \<Rightarrow> asset \<Rightarrow> answers \<Rightarrow> 's \<Rightarrow> (error + 'a enriched_asset) \<times> 's" where
  "aggregate axios_get a options s =
     (if \<not> truthy options ''includeAssets''
      then (Inr \<lparr>base = a, attributes = None, relations = None, responsibilities = None\<rparr>, s)
      else
        (case sub_fetch (truthy options ''includeAttributes'')
                (getAssetAttributes axios_get (asset_id a)) s of
           (Inl e, s1) \<Rightarrow> (Inl e, s1)
         | (Inr attrs, s1) \<Rightarrow>
        (case sub_fetch (truthy options ''includeRelations'')
                (getAssetRelations axios_get (asset_id a) Map.empty) s1 of
           (Inl e, s2) \<Rightarrow> (Inl e, s2)
         | (Inr rels, s2) \<Rightarrow>
        (case sub_fetch (truthy options ''includeResponsibilities'')
                (getAssetResponsibilities axios_get (asset_id a) Map.empty) s2 of
           (Inl e, s3) \<Rightarrow> (Inl e, s3)
         | (Inr resps, s3) \<Rightarrow>
             (Inr \<lparr>base = a, attributes = attrs, relations = rels, responsibilities = resps\<rparr>,
              s3)))))"

text \<open>
  Modelled from the spec: \<open>exportMultipleCommunities\<close> (\<open>exportAll\<close>, section 4.4)
  of the missing exporter. The units are taken in input order, one at a time; a failure
  of a unit's pipeline is caught and recorded with the unit's name and the failure's
  description, and the next unit follows. The pipeline of one unit, \<open>exportCommunity\<close>
  (\<open>exportOne\<close>), is a parameter. The fields of a result are those that \<open>main\<close>
  reads: \<open>success\<close>, \<open>community\<close> and \<open>error\<close>.
\<close>

record ExportResult =
  result_success :: bool
  result_community :: string
  result_error :: "string option"

fun exportMultipleCommunities ::
  "(community \<Rightarrow> 'o \<Rightarrow> 's \<Rightarrow> (error + 'r) \<times> 's) \<Rightarrow> community list \<Rightarrow> 'o \<Rightarrow> 's
     \<Rightarrow> ExportResult list \<times> 's" where
  "exportMultipleCommunities exportCommunity [] options s = ([], s)"
| "exportMultipleCommunities exportCommunity (u # units) options s =
     (case exportCommunity u options s of
        (Inr _, s') \<Rightarrow>
          (case exportMultipleCommunities exportCommunity units options s' of
             (results, s'') \<Rightarrow>
               (\<lparr>result_success = True, result_community = comm_name u,
                  result_error = None\<rparr> # results, s''))
      | (Inl e, s') \<Rightarrow>
          (case exportMultipleCommunities exportCommunity units options s' of
             (results, s'') \<Rightarrow>
               (\<lparr>result_success = False, result_community = comm_name u,
                  result_error = Some (message e)\<rparr> # results, s'')))"

text \<open>
  The export step of \<open>main\<close>: one selected community goes to \<open>exportCommunity\<close>,
  whose failure reaches the handler of \<open>main\<close>; several go to
  \<open>exportMultipleCommunities\<close>, whose results are printed as the summary.
\<close>

definition performRestExport ::
  "(community \<Rightarrow> 'o \<Rightarrow> 's \<Rightarrow> (error + 'r) \<times> 's) \<Rightarrow> community list \<Rightarrow> 'o \<Rightarrow> 's
     \<Rightarrow> (error + ExportResult list) \<times> 's" where
  "performRestExport exportCommunity selectedCommunities exportOptions s =
     (if length selectedCommunities = 1
      then (case exportCommunity (selectedCommunities ! 0) exportOptions s of
              (Inl e, s') \<Rightarrow> (Inl e, s')
            | (Inr _, s') \<Rightarrow> (Inr [], s'))
      else (case exportMultipleCommunities exportCommunity selectedCommunities exportOptions s of
              (results, s') \<Rightarrow> (Inr results, s')))"

text \<open>
  Concrete inputs: a pipeline that fails for the community named \<open>unit2\<close> and records
  the names it has been run on, a community by its name, a user who declines the assets
  and takes the default elsewhere, and an asset.
\<close>

definition unit2_fails :: "community \<Rightarrow> unit \<Rightarrow> string list \<Rightarrow> (error + string) \<times> string list" where
  "unit2_fails u options visited =
     (if comm_name u = ''unit2'' then (Inl (Error ''asset fetch failed''), visited @ [comm_name u])
      else (Inr (''./exports/'' @ comm_name u), visited @ [comm_name u]))"

definition unit_named :: "string \<Rightarrow> community" where
  "unit_named n = \<lparr>comm_id = n, comm_name = n, description = None, parent = None\<rparr>"

definition declines_assets :: "question \<Rightarrow> answer" where
  "declines_assets q = (if q_name q = ''includeAssets'' then Confirm False else q_default q)"

definition widget :: asset where
  "widget = \<lparr>asset_id = ''42'', asset_name = ''Widget''\<rparr>"

section \<open>Remote sources\<close>

text \<open>
  The remote service is outside the program. \<open>paged_source xs\<close> is a service that holds
  the items \<open>xs\<close> in the order it serves them and answers a request with the slice that
  starts at the request's \<open>offset\<close> and has at most \<open>limit\<close> items; its state is the log
  of the requests it has received. \<open>failing_after k xs\<close> is the same service with a
  transport that breaks at request number \<open>k\<close>.
\<close>

definition param_nat :: "params \<Rightarrow> string \<Rightarrow> nat" where
  "param_nat ps k = (case ps k of Some (PNum n) \<Rightarrow> n | _ \<Rightarrow> 0)"

definition paged_source :: "'a list \<Rightarrow> (request list, 'a) remote" where
  "paged_source xs req log =
     (Inr [''results'' \<mapsto> take (param_nat (req_params req) ''limit'')
                              (drop (param_nat (req_params req) ''offset'') xs)],
      log @ [req])"

definition failing_after :: "nat \<Rightarrow> 'a list \<Rightarrow> (request list, 'a) remote" where
  "failing_after k xs req log =
     (if length log = k then (Inl (Error ''Network Error''), log @ [req])
      else paged_source xs req log)"

text \<open>
  The communities endpoint of the service: with \<open>nameMatchMode: 'EXACT'\<close> it keeps the
  communities whose name equals the \<open>name\<close> parameter, with any other mode those whose
  name contains it, and pages what is left.
\<close>

definition name_filter :: "params \<Rightarrow> community list \<Rightarrow> community list" where
  "name_filter ps catalog =
     (case ps ''name'' of
        Some (PStr n) \<Rightarrow>
          (if ps ''nameMatchMode'' = Some (PStr ''EXACT'')
           then filter (\<lambda>c. comm_name c = n) catalog
           else filter (\<lambda>c. sublist n (comm_name c)) catalog)
      | _ \<Rightarrow> catalog)"

definition community_service :: "community list \<Rightarrow> (request list, community) remote" where
  "community_service catalog req log =
     paged_source (name_filter (req_params req) catalog) req log"

section \<open>Notions for the hierarchy\<close>

text \<open>
  \<open>parent_rel\<close> relates the identifier of a listed community to the identifier its
  parent reference names. \<open>descendant communities root c\<close>: the listed community \<open>c\<close>
  is reached from \<open>root\<close> by steps from an identifier to a listed community whose
  parent reference is that identifier. \<open>parents_first seen out\<close>: every element of
  \<open>out\<close> refers to a parent in \<open>seen\<close> or to an element before it.
\<close>

definition parent_rel :: "community list \<Rightarrow> (string \<times> string) set" where
  "parent_rel communities =
     {(comm_id c, p) | c p. c \<in> set communities \<and> is_child_of c p}"

inductive descendant :: "community list \<Rightarrow> string \<Rightarrow> community \<Rightarrow> bool"
  for communities :: "community list" and root :: string where
  child: "c \<in> set communities \<Longrightarrow> is_child_of c root \<Longrightarrow> descendant communities root c"
| below: "descendant communities root d \<Longrightarrow> c \<in> set communities \<Longrightarrow>
          is_child_of c (comm_id d) \<Longrightarrow> descendant communities root c"

fun parents_first :: "string set \<Rightarrow> community list \<Rightarrow> bool" where
  "parents_first seen [] = True"
| "parents_first seen (c # cs) =
     ((\<exists>p \<in> seen. is_child_of c p) \<and> parents_first (insert (comm_id c) seen) cs)"

text \<open>Two listings used as concrete inputs: a forest and a cycle of two communities.\<close>

definition small_forest :: "community list" where
  "small_forest =
     [\<lparr>comm_id = ''r'', comm_name = ''Root'', description = None, parent = None\<rparr>,
      \<lparr>comm_id = ''a'', comm_name = ''Finance'', description = None, parent = Some (ParentRef ''r'')\<rparr>,
      \<lparr>comm_id = ''b'', comm_name = ''Finance EMEA'', description = None, parent = Some (ParentRef ''a'')\<rparr>,
      \<lparr>comm_id = ''c'', comm_name = ''Other'', description = None, parent = None\<rparr>,
      \<lparr>comm_id = ''d'', comm_name = ''Risk'', description = None, parent = Some (ParentRef ''r'')\<rparr>]"


text \<open>
  A catalog of 1001 communities in the order of their names: a thousand communities
  without a parent, then one whose parent reference names \<open>root\<close>.
\<close>

definition big_catalog :: "community list" where
  "big_catalog =
     map (\<lambda>n. \<lparr>comm_id = replicate (Suc n) CHR ''i'', comm_name = replicate (Suc n) CHR ''a'',
                 description = None, parent = None\<rparr>) [0..<1000]
     @ [\<lparr>comm_id = ''sub'', comm_name = ''zz'', description = None,
          parent = Some (ParentRef ''root'')\<rparr>]"

section \<open>Pagination\<close>

lemma limit_pos: "0 < limit"
  by (simp add: limit_def)

lemma makeRequest_passes:
  "makeRequest axios_get endpoint params s =
     axios_get \<lparr>req_endpoint = endpoint, req_params = params\<rparr> s"
  by (simp add: makeRequest_def split: prod.splits sum.splits)

lemma loop_failure:
  assumes "axios_get \<lparr>req_endpoint = endpoint,
             req_params = params(''offset'' \<mapsto> PNum offset, ''limit'' \<mapsto> PNum limit)\<rparr> s
             = (Inl e, s')"
  shows "fetchAllPages_loop axios_get endpoint params itemsKey allResults offset s
           = Some (Inl e, s')"
  by (subst fetchAllPages_loop.simps) (simp add: makeRequest_passes assms)

lemma loop_short_page:
  assumes "axios_get \<lparr>req_endpoint = endpoint,
             req_params = params(''offset'' \<mapsto> PNum offset, ''limit'' \<mapsto> PNum limit)\<rparr> s
             = (Inr response, s')"
    and "length (case response itemsKey of Some xs \<Rightarrow> xs | None \<Rightarrow> []) \<noteq> limit"
  shows "fetchAllPages_loop axios_get endpoint params itemsKey allResults offset s =
           Some (Inr (allResults @ (case response itemsKey of Some xs \<Rightarrow> xs | None \<Rightarrow> [])), s')"
  using assms(2)
  by (subst fetchAllPages_loop.simps) (simp add: makeRequest_passes assms(1) Let_def)

lemma loop_full_page:
  assumes "axios_get \<lparr>req_endpoint = endpoint,
             req_params = params(''offset'' \<mapsto> PNum offset, ''limit'' \<mapsto> PNum limit)\<rparr> s
             = (Inr response, s')"
    and "length (case response itemsKey of Some xs \<Rightarrow> xs | None \<Rightarrow> []) = limit"
  shows "fetchAllPages_loop axios_get endpoint params itemsKey allResults offset s =
           fetchAllPages_loop axios_get endpoint params itemsKey
             (allResults @ (case response itemsKey of Some xs \<Rightarrow> xs | None \<Rightarrow> []))
             (offset + limit) s'"
  using assms(2)
  by (subst fetchAllPages_loop.simps) (simp add: makeRequest_passes assms(1) Let_def)

lemma paged_source_page:
  "paged_source xs \<lparr>req_endpoint = endpoint,
      req_params = params(''offset'' \<mapsto> PNum offset, ''limit'' \<mapsto> PNum limit)\<rparr> log =
   (Inr [''results'' \<mapsto> take limit (drop offset xs)],
    log @ [\<lparr>req_endpoint = endpoint,
             req_params = params(''offset'' \<mapsto> PNum offset, ''limit'' \<mapsto> PNum limit)\<rparr>])"
  by (simp add: paged_source_def param_nat_def)

text \<open>
  The loop against a paged source, from any offset: induction on the number of items
  past the offset.
\<close>

lemma loop_paged_source:
  "fetchAllPages_loop (paged_source xs) endpoint params ''results'' allResults offset log =
     Some (Inr (allResults @ drop offset xs),
           log @ map (\<lambda>k. \<lparr>req_endpoint = endpoint,
                            req_params = params(''offset'' \<mapsto> PNum (offset + k * limit),
                                                ''limit'' \<mapsto> PNum limit)\<rparr>)
                     [0..<(length xs - offset) div limit + 1])"
proof (induction "length xs - offset" arbitrary: allResults offset log rule: less_induct)
  case less
  let ?page = "take limit (drop offset xs)"
  note page = paged_source_page [of xs endpoint params offset log]
  show ?case
  proof (cases "offset + limit \<le> length xs")
    case True
    then have full: "length ?page = limit" by simp
    have smaller: "length xs - (offset + limit) < length xs - offset"
      using True limit_pos by arith
    have step: "fetchAllPages_loop (paged_source xs) endpoint params ''results'' allResults offset log =
        fetchAllPages_loop (paged_source xs) endpoint params ''results'' (allResults @ ?page)
          (offset + limit)
          (log @ [\<lparr>req_endpoint = endpoint,
             req_params = params(''offset'' \<mapsto> PNum offset, ''limit'' \<mapsto> PNum limit)\<rparr>])"
      using loop_full_page [where axios_get = "paged_source xs" and params = params
          and itemsKey = "''results''" and allResults = allResults, OF page] full by simp
    have items: "?page @ drop (offset + limit) xs = drop offset xs"
      by (metis add.commute append_take_drop_id drop_drop)
    have cnt: "(length xs - offset) div limit = Suc ((length xs - (offset + limit)) div limit)"
      using True limit_pos by (simp add: le_div_geq)
    show ?thesis
      unfolding step less.hyps [OF smaller] cnt
      by (simp add: items map_upt_Suc add.assoc del: upt_Suc)
  next
    case False
    have short: "length ?page \<noteq> limit" using False limit_pos by (simp add: min_def)
    have all: "?page = drop offset xs" using False by simp
    have "length xs - offset < limit" using False limit_pos by arith
    then have cnt: "(length xs - offset) div limit = 0" by simp
    show ?thesis
      using loop_short_page [where axios_get = "paged_source xs" and params = params
          and itemsKey = "''results''" and allResults = allResults, OF page] short
      by (simp add: all cnt)
  qed
qed

text \<open>
  Claim C2. Against a source that holds the items \<open>xs\<close> and serves them in pages of
  the requested size, \<open>fetchAllPages\<close> returns exactly \<open>xs\<close>, in order, whatever the
  length of \<open>xs\<close> is (zero and exact multiples of the page size included); the requests
  it issues are those at the offsets \<open>0\<close>, \<open>limit\<close>, \<open>2 * limit\<close>, ... up to the first
  page that is not full.
\<close>

theorem fetchAllPages_complete:
  "fetchAllPages (paged_source xs) endpoint params ''results'' log =
     Some (Inr xs,
           log @ map (\<lambda>k. \<lparr>req_endpoint = endpoint,
                            req_params = params(''offset'' \<mapsto> PNum (k * limit),
                                                ''limit'' \<mapsto> PNum limit)\<rparr>)
                     [0..<length xs div limit + 1])"
  unfolding fetchAllPages_def
  using loop_paged_source [of xs endpoint params "[]" 0 log] by simp

text \<open>
  Claim C6. When the reply to the request of an iteration holds strictly fewer items
  than the page size, the loop returns right after that page: the result is what was
  accumulated followed by the page, and the state is the one that request left, so no
  further request is made. At offset \<open>0\<close> this is the first page of \<open>fetchAllPages\<close>,
  empty or not.
\<close>

theorem short_page_ends_pagination:
  assumes "axios_get \<lparr>req_endpoint = endpoint,
             req_params = params(''offset'' \<mapsto> PNum offset, ''limit'' \<mapsto> PNum limit)\<rparr> s
             = (Inr response, s')"
    and "length (case response itemsKey of Some xs \<Rightarrow> xs | None \<Rightarrow> []) < limit"
  shows "fetchAllPages_loop axios_get endpoint params itemsKey allResults offset s =
           Some (Inr (allResults @ (case response itemsKey of Some xs \<Rightarrow> xs | None \<Rightarrow> [])), s')
         \<and> (offset = 0 \<longrightarrow>
              fetchAllPages axios_get endpoint params itemsKey s =
                Some (Inr (case response itemsKey of Some xs \<Rightarrow> xs | None \<Rightarrow> []), s'))"
proof -
  from assms(2)
  have ne: "length (case response itemsKey of Some xs \<Rightarrow> xs | None \<Rightarrow> []) \<noteq> limit"
    by simp
  note short = loop_short_page [where axios_get = axios_get and params = params
      and itemsKey = itemsKey, OF assms(1) ne]
  show ?thesis
    using short [where allResults = allResults] short [where allResults = "[]"]
    by (auto simp: fetchAllPages_def)
qed

theorem short_page_ends_pagination_witness:
  "fetchAllPages (paged_source ([] :: nat list)) ''/assets'' Map.empty ''results'' [] =
     Some (Inr [], [\<lparr>req_endpoint = ''/assets'',
                     req_params = [''offset'' \<mapsto> PNum 0, ''limit'' \<mapsto> PNum limit]\<rparr>])
   \<and> fetchAllPages_loop (paged_source [4, 5, 6 :: nat]) ''/assets'' Map.empty ''results''
       [1, 2, 3] 3 [] =
     Some (Inr [1, 2, 3], [\<lparr>req_endpoint = ''/assets'',
                     req_params = [''offset'' \<mapsto> PNum 3, ''limit'' \<mapsto> PNum limit]\<rparr>])"
  using short_page_ends_pagination [where axios_get = "paged_source ([] :: nat list)"
      and endpoint = "''/assets''" and params = Map.empty and offset = 0 and s = "[]"
      and itemsKey = "''results''" and allResults = "[]"
      and response = "[''results'' \<mapsto> []]"]
    short_page_ends_pagination [where axios_get = "paged_source [4, 5, 6 :: nat]"
      and endpoint = "''/assets''" and params = Map.empty and offset = 3 and s = "[]"
      and itemsKey = "''results''" and allResults = "[1, 2, 3]"
      and response = "[''results'' \<mapsto> []]"]
  by (simp add: paged_source_def param_nat_def limit_def)

text \<open>
  Claim C7. When the transport raises on the request of an iteration, \<open>makeRequest\<close>
  raises the same error and the loop ends with it: the result is the error alone,
  without the items accumulated so far, and the state is the one the failed request
  left, so the page is neither asked for again nor skipped. In particular a first full
  page followed by a failing second request makes \<open>fetchAllPages\<close> fail.
\<close>

theorem request_failure_propagates:
  "(axios_get \<lparr>req_endpoint = endpoint,
       req_params = params(''offset'' \<mapsto> PNum offset, ''limit'' \<mapsto> PNum limit)\<rparr> s = (Inl e, s')
     \<longrightarrow> makeRequest axios_get endpoint
           (params(''offset'' \<mapsto> PNum offset, ''limit'' \<mapsto> PNum limit)) s = (Inl e, s')
         \<and> fetchAllPages_loop axios_get endpoint params itemsKey allResults offset s
             = Some (Inl e, s'))
   \<and> (axios_get \<lparr>req_endpoint = endpoint,
          req_params = params(''offset'' \<mapsto> PNum 0, ''limit'' \<mapsto> PNum limit)\<rparr> s
          = (Inr response, s1)
        \<and> length (case response itemsKey of Some xs \<Rightarrow> xs | None \<Rightarrow> []) = limit
        \<and> axios_get \<lparr>req_endpoint = endpoint,
          req_params = params(''offset'' \<mapsto> PNum limit, ''limit'' \<mapsto> PNum limit)\<rparr> s1
          = (Inl e, s2)
     \<longrightarrow> fetchAllPages axios_get endpoint params itemsKey s = Some (Inl e, s2))"
proof (intro conjI impI)
  assume "axios_get \<lparr>req_endpoint = endpoint,
       req_params = params(''offset'' \<mapsto> PNum offset, ''limit'' \<mapsto> PNum limit)\<rparr> s = (Inl e, s')"
  then show "makeRequest axios_get endpoint
           (params(''offset'' \<mapsto> PNum offset, ''limit'' \<mapsto> PNum limit)) s = (Inl e, s')"
    and "fetchAllPages_loop axios_get endpoint params itemsKey allResults offset s
           = Some (Inl e, s')"
    by (simp_all add: makeRequest_passes loop_failure)
next
  assume a: "axios_get \<lparr>req_endpoint = endpoint,
          req_params = params(''offset'' \<mapsto> PNum 0, ''limit'' \<mapsto> PNum limit)\<rparr> s
          = (Inr response, s1)
        \<and> length (case response itemsKey of Some xs \<Rightarrow> xs | None \<Rightarrow> []) = limit
        \<and> axios_get \<lparr>req_endpoint = endpoint,
          req_params = params(''offset'' \<mapsto> PNum limit, ''limit'' \<mapsto> PNum limit)\<rparr> s1
          = (Inl e, s2)"
  have first: "fetchAllPages_loop axios_get endpoint params itemsKey [] 0 s =
      fetchAllPages_loop axios_get endpoint params itemsKey
        ([] @ (case response itemsKey of Some xs \<Rightarrow> xs | None \<Rightarrow> [])) (0 + limit) s1"
    using a by (intro loop_full_page) simp_all
  have second: "fetchAllPages_loop axios_get endpoint params itemsKey
        ([] @ (case response itemsKey of Some xs \<Rightarrow> xs | None \<Rightarrow> [])) (0 + limit) s1
        = Some (Inl e, s2)"
    using a by (intro loop_failure) simp
  show "fetchAllPages axios_get endpoint params itemsKey s = Some (Inl e, s2)"
    unfolding fetchAllPages_def first second ..
qed

theorem request_failure_propagates_witness:
  "fetchAllPages_loop (failing_after 0 [1, 2, 3 :: nat]) ''/assets'' Map.empty ''results''
       [9] 0 [] =
     Some (Inl (Error ''Network Error''),
           [\<lparr>req_endpoint = ''/assets'',
              req_params = [''offset'' \<mapsto> PNum 0, ''limit'' \<mapsto> PNum limit]\<rparr>])
   \<and> fetchAllPages (failing_after 1 (replicate 1000 (7 :: nat))) ''/assets'' Map.empty
       ''results'' [] =
     Some (Inl (Error ''Network Error''),
           [\<lparr>req_endpoint = ''/assets'',
              req_params = [''offset'' \<mapsto> PNum 0, ''limit'' \<mapsto> PNum limit]\<rparr>,
            \<lparr>req_endpoint = ''/assets'',
              req_params = [''offset'' \<mapsto> PNum limit, ''limit'' \<mapsto> PNum limit]\<rparr>])"
  using request_failure_propagates [where axios_get = "failing_after 0 [1, 2, 3 :: nat]"
      and endpoint = "''/assets''" and params = Map.empty and offset = 0 and s = "[]"
      and itemsKey = "''results''" and allResults = "[9]" and e = "Error ''Network Error''"
      and s' = "[\<lparr>req_endpoint = ''/assets'',
              req_params = [''offset'' \<mapsto> PNum 0, ''limit'' \<mapsto> PNum limit]\<rparr>]"]
    request_failure_propagates [where axios_get = "failing_after 1 (replicate 1000 (7 :: nat))"
      and endpoint = "''/assets''" and params = Map.empty and offset = 0 and s = "[]"
      and itemsKey = "''results''" and allResults = "[]"
      and response = "[''results'' \<mapsto> replicate 1000 7]" and e = "Error ''Network Error''"
      and ?s1.0 = "[\<lparr>req_endpoint = ''/assets'',
              req_params = [''offset'' \<mapsto> PNum 0, ''limit'' \<mapsto> PNum limit]\<rparr>]"
      and ?s2.0 = "[\<lparr>req_endpoint = ''/assets'',
              req_params = [''offset'' \<mapsto> PNum 0, ''limit'' \<mapsto> PNum limit]\<rparr>,
            \<lparr>req_endpoint = ''/assets'',
              req_params = [''offset'' \<mapsto> PNum limit, ''limit'' \<mapsto> PNum limit]\<rparr>]"]
  by (simp add: failing_after_def paged_source_def param_nat_def limit_def)

section \<open>Descendants\<close>

subsection \<open>The relation of parent references\<close>

lemma is_child_of_unique: "is_child_of c p \<Longrightarrow> is_child_of c q \<Longrightarrow> p = q"
  by (auto simp: is_child_of_def split: option.splits)

lemma parent_rel_edge: "c \<in> set cs \<Longrightarrow> is_child_of c p \<Longrightarrow> (comm_id c, p) \<in> parent_rel cs"
  by (auto simp: parent_rel_def)

lemma finite_parent_rel: "finite (parent_rel cs)"
proof -
  have "parent_rel cs \<subseteq> (\<lambda>c. (comm_id c, ref_id (the (parent c)))) ` set cs"
    by (auto simp: parent_rel_def is_child_of_def image_iff split: option.splits)
  then show ?thesis
    by (rule finite_subset) simp
qed

lemma single_valued_parent_rel:
  assumes "distinct (map comm_id cs)"
  shows "single_valued (parent_rel cs)"
proof (rule single_valuedI)
  fix x p q
  assume "(x, p) \<in> parent_rel cs" and "(x, q) \<in> parent_rel cs"
  then obtain c d where c: "c \<in> set cs" "comm_id c = x" "is_child_of c p"
    and d: "d \<in> set cs" "comm_id d = x" "is_child_of d q"
    by (auto simp: parent_rel_def)
  from assms have "inj_on comm_id (set cs)"
    by (simp add: distinct_map)
  with c d have "c = d"
    by (auto dest: inj_onD)
  with c d show "p = q"
    by (auto dest: is_child_of_unique)
qed

lemma descendant_in_listing: "descendant cs root c \<Longrightarrow> c \<in> set cs"
  by (induction rule: descendant.induct) auto

lemma descendant_trancl: "descendant cs root c \<Longrightarrow> (comm_id c, root) \<in> (parent_rel cs)\<^sup>+"
proof (induction rule: descendant.induct)
  case (child c)
  then show ?case by (auto intro: parent_rel_edge)
next
  case (below d c)
  then have "(comm_id c, comm_id d) \<in> parent_rel cs" by (auto intro: parent_rel_edge)
  from this below.IH show ?case by (rule trancl_into_trancl2)
qed

lemma descendant_under_child:
  assumes "descendant cs (comm_id c) x" and "c \<in> set cs" and "is_child_of c root"
  shows "descendant cs root x"
  using assms
proof (induction rule: descendant.induct)
  case (child x)
  then show ?case by (auto intro: descendant.intros)
next
  case (below d x)
  then show ?case by (auto intro: descendant.below)
qed

subsection \<open>Unfolding the loop\<close>

lemma loop_Nil: "findDescendants_loop cs [] pid acc = Some acc"
  by (subst findDescendants_loop.simps) simp

lemma loop_Cons_child:
  "is_child_of c pid \<Longrightarrow>
   findDescendants_loop cs (c # rest) pid acc =
     findDescendants_loop cs cs (comm_id c) [] \<bind>
       (\<lambda>children. findDescendants_loop cs rest pid (acc @ [c] @ children))"
  by (subst findDescendants_loop.simps) simp

lemma loop_Cons_other:
  "\<not> is_child_of c pid \<Longrightarrow>
   findDescendants_loop cs (c # rest) pid acc = findDescendants_loop cs rest pid acc"
  by (subst findDescendants_loop.simps) simp

lemma loop_unfold:
  assumes "\<And>c. c \<in> set rest \<Longrightarrow> is_child_of c pid \<Longrightarrow>
             findDescendants_loop cs cs (comm_id c) [] = Some (D (comm_id c))"
  shows "findDescendants_loop cs rest pid acc =
           Some (acc @ concat (map (\<lambda>c. c # D (comm_id c)) (filter (\<lambda>c. is_child_of c pid) rest)))"
  using assms
proof (induction rest arbitrary: acc)
  case Nil
  show ?case by (simp add: loop_Nil)
next
  case (Cons c rest)
  show ?case
  proof (cases "is_child_of c pid")
    case True
    then have "findDescendants_loop cs cs (comm_id c) [] = Some (D (comm_id c))"
      by (simp add: Cons.prems)
    with True show ?thesis
      by (simp add: loop_Cons_child Cons.IH Cons.prems)
  next
    case False
    then show ?thesis
      by (simp add: loop_Cons_other Cons.IH Cons.prems)
  qed
qed

subsection \<open>Termination\<close>

lemma findDescendants_returns:
  assumes "wf R"
    and "\<And>c x. c \<in> set cs \<Longrightarrow> is_child_of c x \<Longrightarrow> I x \<Longrightarrow> (comm_id c, x) \<in> R \<and> I (comm_id c)"
  shows "I pid \<Longrightarrow> \<exists>out. findDescendants cs pid = Some out"
  using assms(1)
proof (induction pid rule: wf_induct_rule)
  case (less pid)
  have "findDescendants_loop cs cs (comm_id c) [] =
          Some (the (findDescendants_loop cs cs (comm_id c) []))"
    if "c \<in> set cs" "is_child_of c pid" for c
  proof -
    from assms(2) [OF that less.prems] less.IH
    obtain out where "findDescendants cs (comm_id c) = Some out" by blast
    then show ?thesis by (simp add: findDescendants_def)
  qed
  then show ?case
    unfolding findDescendants_def
    by (subst loop_unfold [where D = "\<lambda>x. the (findDescendants_loop cs cs x [])"]) auto
qed

lemma findDescendants_unfold:
  assumes "acyclic (parent_rel cs)"
  shows "findDescendants cs pid =
           Some (concat (map (\<lambda>c. c # the (findDescendants cs (comm_id c)))
                             (filter (\<lambda>c. is_child_of c pid) cs)))"
proof -
  have wf: "wf (parent_rel cs)"
    using finite_parent_rel assms by (rule finite_acyclic_wf)
  have "findDescendants_loop cs cs (comm_id c) [] =
          Some (the (findDescendants_loop cs cs (comm_id c) []))"
    if "c \<in> set cs" "is_child_of c pid" for c
  proof -
    have "\<exists>out. findDescendants cs (comm_id c) = Some out"
      by (rule findDescendants_returns [where R = "parent_rel cs" and I = "\<lambda>_. True"])
         (auto simp: wf parent_rel_edge)
    then show ?thesis by (auto simp: findDescendants_def)
  qed
  then show ?thesis
    unfolding findDescendants_def
    by (subst loop_unfold [where D = "\<lambda>x. the (findDescendants_loop cs cs x [])"]) auto
qed

subsection \<open>Divergence on a cycle\<close>

lemma loop_never_returns:
  assumes closed: "\<And>x. x \<in> S \<Longrightarrow> \<exists>c\<in>set cs. is_child_of c x \<and> comm_id c \<in> S"
  shows "findDescendants_loop cs' rest pid acc = Some out \<Longrightarrow>
         cs' = cs \<longrightarrow> pid \<in> S \<longrightarrow> (\<exists>c\<in>set rest. is_child_of c pid \<and> comm_id c \<in> S) \<longrightarrow> False"
proof (induction rule: findDescendants_loop.raw_induct [rotated 1, consumes 1, case_names step])
  case (step f communities rest parentId descendants y)
  show ?case
  proof (intro impI)
    assume cs: "communities = cs" and pid: "parentId \<in> S"
      and ex: "\<exists>c\<in>set rest. is_child_of c parentId \<and> comm_id c \<in> S"
    then obtain comm rest' where rest: "rest = comm # rest'"
      by (cases rest) auto
    show False
    proof (cases "is_child_of comm parentId")
      case True
      with step(2) rest obtain children where
        inner: "f communities communities (comm_id comm) [] = Some children"
        and outer: "f communities rest' parentId (descendants @ [comm] @ children) = Some y"
        by (auto simp: bind_eq_Some_conv)
      show False
      proof (cases "comm_id comm \<in> S")
        case True
        with closed cs have "\<exists>c\<in>set communities. is_child_of c (comm_id comm) \<and> comm_id c \<in> S"
          by simp
        with step(1) [OF inner] cs True show False by blast
      next
        case False
        with ex rest have "\<exists>c\<in>set rest'. is_child_of c parentId \<and> comm_id c \<in> S"
          by auto
        with step(1) [OF outer] cs pid show False by blast
      qed
    next
      case False
      with step(2) rest have outer: "f communities rest' parentId descendants = Some y"
        by simp
      from False ex rest have "\<exists>c\<in>set rest'. is_child_of c parentId \<and> comm_id c \<in> S"
        by auto
      with step(1) [OF outer] cs pid show False by blast
    qed
  qed
qed

lemma findDescendants_cycle:
  assumes reach: "(x, root) \<in> (parent_rel cs)\<^sup>*" and cycle: "(x, x) \<in> (parent_rel cs)\<^sup>+"
  shows "findDescendants cs root = None"
proof (rule ccontr)
  assume "findDescendants cs root \<noteq> None"
  then obtain out where out: "findDescendants_loop cs cs root [] = Some out"
    by (auto simp: findDescendants_def)
  define S where "S = {y. (x, y) \<in> (parent_rel cs)\<^sup>*}"
  have closed: "\<exists>c\<in>set cs. is_child_of c y \<and> comm_id c \<in> S" if "y \<in> S" for y
  proof -
    from that have "(x, y) \<in> (parent_rel cs)\<^sup>*" by (simp add: S_def)
    with cycle have "(x, y) \<in> (parent_rel cs)\<^sup>+"
      by (auto dest: rtranclD)
    then obtain z where "(x, z) \<in> (parent_rel cs)\<^sup>*" and "(z, y) \<in> parent_rel cs"
      by (auto dest: tranclD2)
    then show ?thesis
      by (auto simp: parent_rel_def S_def)
  qed
  have "root \<in> S" using reach by (simp add: S_def)
  with closed loop_never_returns [of S cs cs cs root "[]" out, OF closed out]
  show False by blast
qed

subsection \<open>What a returned list holds\<close>

lemma loop_sound:
  "findDescendants_loop cs rest pid acc = Some out \<Longrightarrow>
   set rest \<subseteq> set cs \<longrightarrow> set out \<subseteq> set acc \<union> {c. descendant cs pid c}"
proof (induction rule: findDescendants_loop.raw_induct [rotated 1, consumes 1, case_names step])
  case (step f communities rest parentId descendants y)
  show ?case
  proof (cases rest)
    case Nil
    with step(2) show ?thesis by simp
  next
    case (Cons comm rest')
    show ?thesis
    proof (intro impI)
      assume sub: "set rest \<subseteq> set communities"
      with Cons have comm: "comm \<in> set communities" and sub': "set rest' \<subseteq> set communities"
        by auto
      show "set y \<subseteq> set descendants \<union> {c. descendant communities parentId c}"
      proof (cases "is_child_of comm parentId")
        case True
        with step(2) Cons obtain children where
          inner: "f communities communities (comm_id comm) [] = Some children"
          and outer: "f communities rest' parentId (descendants @ [comm] @ children) = Some y"
          by (auto simp: bind_eq_Some_conv)
        from step(1) [OF inner]
        have "set children \<subseteq> {c. descendant communities (comm_id comm) c}" by simp
        with comm True have "set children \<subseteq> {c. descendant communities parentId c}"
          by (auto intro: descendant_under_child)
        moreover from comm True have "descendant communities parentId comm"
          by (rule descendant.child)
        moreover from step(1) [OF outer] sub'
        have "set y \<subseteq> set (descendants @ [comm] @ children) \<union> {c. descendant communities parentId c}"
          by simp
        ultimately show ?thesis by auto
      next
        case False
        with step(2) Cons have "f communities rest' parentId descendants = Some y" by simp
        from step(1) [OF this] sub' show ?thesis by simp
      qed
    qed
  qed
qed

lemma findDescendants_sound:
  "findDescendants cs root = Some out \<Longrightarrow> c \<in> set out \<Longrightarrow> descendant cs root c"
  using loop_sound [of cs cs root "[]" out] by (auto simp: findDescendants_def)

lemma root_not_returned:
  assumes "findDescendants cs root = Some out" and "c \<in> set out"
  shows "comm_id c \<noteq> root"
proof
  assume "comm_id c = root"
  with findDescendants_sound [OF assms] have "(root, root) \<in> (parent_rel cs)\<^sup>+"
    by (auto dest: descendant_trancl)
  then have "findDescendants cs root = None"
    by (intro findDescendants_cycle [of root]) auto
  with assms show False by simp
qed

subsection \<open>The returned list on a forest\<close>

lemma wf_parent_rel: "acyclic (parent_rel cs) \<Longrightarrow> wf (parent_rel cs)"
  using finite_parent_rel by (rule finite_acyclic_wf)

lemma the_findDescendants:
  assumes "acyclic (parent_rel cs)"
  shows "the (findDescendants cs pid) =
           concat (map (\<lambda>c. c # the (findDescendants cs (comm_id c)))
                       (filter (\<lambda>c. is_child_of c pid) cs))"
  using findDescendants_unfold [OF assms, of pid] by simp

lemma descendant_top:
  "descendant cs root x \<Longrightarrow>
   (x \<in> set cs \<and> is_child_of x root) \<or>
   (\<exists>c\<in>set cs. is_child_of c root \<and> descendant cs (comm_id c) x)"
proof (induction rule: descendant.induct)
  case (child c)
  then show ?case by simp
next
  case (below d x)
  from below.IH show ?case
  proof
    assume "d \<in> set cs \<and> is_child_of d root"
    moreover from below.hyps have "descendant cs (comm_id d) x"
      by (auto intro: descendant.child)
    ultimately show ?thesis by blast
  next
    assume "\<exists>c\<in>set cs. is_child_of c root \<and> descendant cs (comm_id c) d"
    then obtain c where "c \<in> set cs" "is_child_of c root" "descendant cs (comm_id c) d"
      by blast
    moreover from this below.hyps have "descendant cs (comm_id c) x"
      by (auto intro: descendant.below)
    ultimately show ?thesis by blast
  qed
qed

lemma set_findDescendants:
  assumes acyc: "acyclic (parent_rel cs)"
  shows "set (the (findDescendants cs pid)) = {c. descendant cs pid c}"
  using wf_parent_rel [OF acyc]
proof (induction pid rule: wf_induct_rule)
  case (less pid)
  have IH: "set (the (findDescendants cs (comm_id c))) = {x. descendant cs (comm_id c) x}"
    if "c \<in> set cs" "is_child_of c pid" for c
    using that by (intro less.IH parent_rel_edge)
  have "set (the (findDescendants cs pid)) =
      (\<Union>c\<in>{c \<in> set cs. is_child_of c pid}. insert c {x. descendant cs (comm_id c) x})"
    by (subst the_findDescendants [OF acyc]) (auto simp: IH)
  also have "\<dots> = {c. descendant cs pid c}"
    by (auto intro: descendant.child descendant_under_child dest: descendant_top)
  finally show ?case .
qed

lemma no_shared_descendant:
  assumes acyc: "acyclic r" and sv: "single_valued r"
    and a: "(a, p) \<in> r" and b: "(b, p) \<in> r" and ab: "a \<noteq> b"
    and xa: "(x, a) \<in> r\<^sup>*" and xb: "(x, b) \<in> r\<^sup>*"
  shows False
proof -
  have one: False if "(a', b') \<in> r\<^sup>*" "(a', p) \<in> r" "(b', p) \<in> r" "a' \<noteq> b'" for a' b'
  proof -
    from that have "(a', b') \<in> r\<^sup>+" by (auto dest: rtranclD)
    then obtain z where "(a', z) \<in> r" and zb: "(z, b') \<in> r\<^sup>*" by (auto dest: tranclD)
    with sv that have "z = p" by (auto dest: single_valuedD)
    with zb that have "(b', b') \<in> r\<^sup>+" by (auto intro: rtrancl_into_trancl2)
    with acyc show False by (auto simp: acyclic_def)
  qed
  from single_valued_confluent [OF sv xa xb] show False
    using one [of a b] one [of b a] a b ab by auto
qed

lemma distinct_findDescendants:
  assumes acyc: "acyclic (parent_rel cs)" and ids: "distinct (map comm_id cs)"
  shows "distinct (the (findDescendants cs pid))"
  using wf_parent_rel [OF acyc]
proof (induction pid rule: wf_induct_rule)
  case (less pid)
  let ?T = "\<lambda>c. the (findDescendants cs (comm_id c))"
  let ?children = "filter (\<lambda>c. is_child_of c pid) cs"
  from ids have dcs: "distinct cs" and inj: "inj_on comm_id (set cs)"
    by (simp_all add: distinct_map)
  note sv = single_valued_parent_rel [OF ids]
  have below: "(comm_id x, comm_id c) \<in> (parent_rel cs)\<^sup>*" if "x \<in> set (c # ?T c)" for x c
    using that set_findDescendants [OF acyc, of "comm_id c"]
    by (auto dest!: descendant_trancl)
  have "distinct (concat (map (\<lambda>c. c # ?T c) ?children))"
  proof (rule distinct_concat)
    show "distinct (map (\<lambda>c. c # ?T c) ?children)"
      using dcs by (auto simp: distinct_map intro: inj_onI)
  next
    fix ys assume "ys \<in> set (map (\<lambda>c. c # ?T c) ?children)"
    then obtain c where c: "c \<in> set cs" "is_child_of c pid" and ys: "ys = c # ?T c"
      by auto
    have "c \<notin> set (?T c)"
    proof
      assume "c \<in> set (?T c)"
      then have "(comm_id c, comm_id c) \<in> (parent_rel cs)\<^sup>+"
        using set_findDescendants [OF acyc, of "comm_id c"] by (auto dest: descendant_trancl)
      with acyc show False by (auto simp: acyclic_def)
    qed
    moreover have "distinct (?T c)"
      using c by (intro less.IH parent_rel_edge)
    ultimately show "distinct ys" by (simp add: ys)
  next
    fix ys zs
    assume "ys \<in> set (map (\<lambda>c. c # ?T c) ?children)"
      and "zs \<in> set (map (\<lambda>c. c # ?T c) ?children)" and "ys \<noteq> zs"
    then obtain c d where c: "c \<in> set cs" "is_child_of c pid" "ys = c # ?T c"
      and d: "d \<in> set cs" "is_child_of d pid" "zs = d # ?T d" and "c \<noteq> d"
      by auto
    with inj have ne: "comm_id c \<noteq> comm_id d" by (auto dest: inj_onD)
    show "set ys \<inter> set zs = {}"
    proof (rule ccontr)
      assume "set ys \<inter> set zs \<noteq> {}"
      then obtain x where xc: "x \<in> set (c # ?T c)" and xd: "x \<in> set (d # ?T d)"
        using c d by auto
      from xc have "(comm_id x, comm_id c) \<in> (parent_rel cs)\<^sup>*" by (rule below)
      moreover from xd have "(comm_id x, comm_id d) \<in> (parent_rel cs)\<^sup>*" by (rule below)
      ultimately have "(comm_id x, comm_id c) \<in> (parent_rel cs)\<^sup>*"
        and "(comm_id x, comm_id d) \<in> (parent_rel cs)\<^sup>*" .
      with no_shared_descendant [OF acyc sv _ _ ne] c d show False
        by (blast intro: parent_rel_edge)
    qed
  qed
  then show ?case
    by (subst the_findDescendants [OF acyc])
qed

subsection \<open>Order of discovery\<close>

lemma parents_first_mono:
  "parents_first seen xs \<Longrightarrow> seen \<subseteq> seen' \<Longrightarrow> parents_first seen' xs"
proof (induction xs arbitrary: seen seen')
  case Nil
  then show ?case by simp
next
  case (Cons c xs)
  have "parents_first (insert (comm_id c) seen') xs"
  proof (rule Cons.IH)
    show "parents_first (insert (comm_id c) seen) xs"
      using Cons.prems by simp
    show "insert (comm_id c) seen \<subseteq> insert (comm_id c) seen'"
      using Cons.prems by auto
  qed
  with Cons.prems show ?case by auto
qed

lemma parents_first_append:
  "parents_first seen (xs @ ys) =
     (parents_first seen xs \<and> parents_first (seen \<union> comm_id ` set xs) ys)"
  by (induction xs arbitrary: seen) simp_all

lemma parents_first_concat:
  assumes "\<And>c. c \<in> set chs \<Longrightarrow> is_child_of c pid \<and> parents_first {comm_id c} (T c)"
    and "pid \<in> seen"
  shows "parents_first seen (concat (map (\<lambda>c. c # T c) chs))"
  using assms
proof (induction chs arbitrary: seen)
  case Nil
  then show ?case by simp
next
  case (Cons c chs)
  have "parents_first (insert (comm_id c) seen) (T c)"
    using Cons.prems(1) [of c] by (auto intro: parents_first_mono)
  moreover have "parents_first (insert (comm_id c) seen \<union> comm_id ` set (T c))
      (concat (map (\<lambda>c. c # T c) chs))"
  proof (rule Cons.IH)
    show "is_child_of d pid \<and> parents_first {comm_id d} (T d)" if "d \<in> set chs" for d
      using that Cons.prems(1) [of d] by simp
    show "pid \<in> insert (comm_id c) seen \<union> comm_id ` set (T c)"
      using Cons.prems(2) by simp
  qed
  ultimately show ?case
    using Cons.prems by (auto simp: parents_first_append)
qed

lemma parents_first_findDescendants:
  assumes acyc: "acyclic (parent_rel cs)"
  shows "parents_first {pid} (the (findDescendants cs pid))"
  using wf_parent_rel [OF acyc]
proof (induction pid rule: wf_induct_rule)
  case (less pid)
  have "parents_first {pid} (concat (map (\<lambda>c. c # the (findDescendants cs (comm_id c)))
      (filter (\<lambda>c. is_child_of c pid) cs)))"
    by (rule parents_first_concat) (auto intro: less.IH parent_rel_edge)
  then show ?case
    by (subst the_findDescendants [OF acyc])
qed

lemma parents_first_nth:
  "parents_first seen out \<Longrightarrow> i < length out \<Longrightarrow>
   (\<exists>p\<in>seen. is_child_of (out ! i) p) \<or> (\<exists>k<i. is_child_of (out ! i) (comm_id (out ! k)))"
proof (induction out arbitrary: seen i)
  case Nil
  then show ?case by simp
next
  case (Cons c out)
  show ?case
  proof (cases i)
    case 0
    with Cons.prems show ?thesis by simp
  next
    case (Suc j)
    with Cons.prems have "parents_first (insert (comm_id c) seen) out" and "j < length out"
      by simp_all
    from Cons.IH [OF this]
    consider "is_child_of (out ! j) (comm_id c)" | "\<exists>p\<in>seen. is_child_of (out ! j) p"
      | "\<exists>k<j. is_child_of (out ! j) (comm_id (out ! k))"
      by auto
    then show ?thesis
    proof cases
      case 1
      then have "\<exists>k<i. is_child_of ((c # out) ! i) (comm_id ((c # out) ! k))"
        using Suc by (intro exI [of _ 0]) simp
      then show ?thesis ..
    next
      case 2
      then show ?thesis using Suc by simp
    next
      case 3
      then obtain k where "k < j" "is_child_of (out ! j) (comm_id (out ! k))" by blast
      then have "\<exists>k<i. is_child_of ((c # out) ! i) (comm_id ((c # out) ! k))"
        using Suc by (intro exI [of _ "Suc k"]) simp
      then show ?thesis ..
    qed
  qed
qed

subsection \<open>The claims on the descent\<close>

lemma acyclic_by_rank:
  fixes rank :: "string \<Rightarrow> nat"
  assumes "\<And>c p. c \<in> set cs \<Longrightarrow> is_child_of c p \<Longrightarrow> rank p < rank (comm_id c)"
  shows "acyclic (parent_rel cs)"
proof -
  have "(parent_rel cs)\<inverse> \<subseteq> inv_image less_than rank"
    using assms by (auto simp: parent_rel_def)
  then have "wf ((parent_rel cs)\<inverse>)"
    by (rule wf_subset [rotated]) simp
  then have "acyclic ((parent_rel cs)\<inverse>)" by (rule wf_acyclic)
  then show ?thesis by simp
qed

lemma acyclic_small_forest: "acyclic (parent_rel small_forest)"
  by (rule acyclic_by_rank [where rank = "\<lambda>x. if x = ''r'' then 0 else if x = ''b'' then 2 else 1"])
     (auto simp: small_forest_def is_child_of_def)

lemma findDescendants_small_forest:
  "findDescendants small_forest ''r'' = Some [small_forest ! 1, small_forest ! 2, small_forest ! 4]"
  by (simp add: findDescendants_def small_forest_def loop_Nil loop_Cons_child loop_Cons_other
      is_child_of_def)

text \<open>
  Claim C3. On a listing that is a forest (the parent references have no cycle and no
  identifier is listed twice) \<open>findDescendants\<close> returns, for every root identifier,
  a list that holds exactly the communities reachable from the root through parent
  references, each once; every element is a child of the root or of an element before
  it, so no community stands before its own parent.
\<close>

theorem findDescendants_forest:
  assumes "acyclic (parent_rel communities)" and "distinct (map comm_id communities)"
  shows "\<exists>out. findDescendants communities root = Some out
           \<and> set out = {c. descendant communities root c}
           \<and> distinct out
           \<and> (\<forall>i<length out. is_child_of (out ! i) root
                  \<or> (\<exists>k<i. is_child_of (out ! i) (comm_id (out ! k))))
           \<and> (\<forall>i j. i < j \<and> j < length out \<longrightarrow> \<not> is_child_of (out ! i) (comm_id (out ! j)))"
proof -
  let ?out = "the (findDescendants communities root)"
  have ret: "findDescendants communities root = Some ?out"
    using findDescendants_unfold [OF assms(1), of root] by simp
  have set: "set ?out = {c. descendant communities root c}"
    by (rule set_findDescendants [OF assms(1)])
  have dist: "distinct ?out"
    by (rule distinct_findDescendants [OF assms])
  have first: "is_child_of (?out ! i) root \<or> (\<exists>k<i. is_child_of (?out ! i) (comm_id (?out ! k)))"
    if "i < length ?out" for i
    using parents_first_nth [OF parents_first_findDescendants [OF assms(1), of root] that]
    by simp
  have order: "\<not> is_child_of (?out ! i) (comm_id (?out ! j))" if "i < j" "j < length ?out" for i j
  proof
    assume child: "is_child_of (?out ! i) (comm_id (?out ! j))"
    from that have i: "i < length ?out" by simp
    have "set ?out \<subseteq> set communities"
      using set by (auto dest: descendant_in_listing)
    moreover from assms(2) have "inj_on comm_id (set communities)"
      by (simp add: distinct_map)
    ultimately have "inj_on comm_id (set ?out)"
      by (rule inj_on_subset [rotated])
    with dist have ids: "distinct (map comm_id ?out)"
      by (simp add: distinct_map)
    from first [OF i] show False
    proof
      assume "is_child_of (?out ! i) root"
      with child have "comm_id (?out ! j) = root" by (rule is_child_of_unique)
      moreover have "?out ! j \<in> set ?out" using that by simp
      ultimately show False using root_not_returned [OF ret] by blast
    next
      assume "\<exists>k<i. is_child_of (?out ! i) (comm_id (?out ! k))"
      then obtain k where k: "k < i" and "is_child_of (?out ! i) (comm_id (?out ! k))" by blast
      with child have "comm_id (?out ! j) = comm_id (?out ! k)" by (auto dest: is_child_of_unique)
      then have "map comm_id ?out ! j = map comm_id ?out ! k"
        using that k by simp
      with ids that k show False
        by (auto simp: distinct_conv_nth)
    qed
  qed
  from ret set dist first order show ?thesis by blast
qed

theorem findDescendants_forest_witness:
  "acyclic (parent_rel small_forest) \<and> distinct (map comm_id small_forest)
   \<and> findDescendants small_forest ''r'' =
       Some [small_forest ! 1, small_forest ! 2, small_forest ! 4]
   \<and> {c. descendant small_forest ''r'' c} = {small_forest ! 1, small_forest ! 2, small_forest ! 4}"
proof -
  have d: "distinct (map comm_id small_forest)"
    by (simp add: small_forest_def)
  from findDescendants_forest [OF acyclic_small_forest d, of "''r''"]
  show ?thesis
    using acyclic_small_forest d by (auto simp: findDescendants_small_forest)
qed

subsection \<open>A bounded call stack\<close>











section \<open>Listing the communities\<close>

lemma getCommunities_request:
  "getCommunities axios_get params s =
     axios_get \<lparr>req_endpoint = ''/communities'',
       req_params = [''offset'' \<mapsto> PNum 0, ''limit'' \<mapsto> PNum 1000, ''sortField'' \<mapsto> PStr ''NAME'',
             ''sortOrder'' \<mapsto> PStr ''ASC'', ''excludeMeta'' \<mapsto> PBool True] ++ params\<rparr> s"
  by (simp add: getCommunities_def makeRequest_passes)

text \<open>
  Claim C10. Whatever the transport answers and whatever the root identifier is, a list
  returned by \<open>getAllSubcommunities\<close> holds no community whose identifier is the
  root identifier, also when the root community is part of the listing.
\<close>

theorem getAllSubcommunities_excludes_root:
  assumes "getAllSubcommunities axios_get communityId s = Some (Inr subcommunities, s')"
  shows "\<forall>c\<in>set subcommunities. comm_id c \<noteq> communityId"
proof -
  from assms obtain communities
    where "findDescendants communities communityId = Some subcommunities"
    by (auto simp: getAllSubcommunities_def Let_def split: prod.splits sum.splits)
  then show ?thesis
    by (auto dest: root_not_returned)
qed

lemma getAllSubcommunities_small_forest:
  "map_option fst (getAllSubcommunities (community_service small_forest) ''r'' []) =
     Some (Inr [small_forest ! 1, small_forest ! 2, small_forest ! 4])"
proof -
  have "take 1000 small_forest = small_forest" by (simp add: small_forest_def)
  then show ?thesis
    by (simp add: getAllSubcommunities_def getCommunities_request community_service_def
        paged_source_def name_filter_def param_nat_def findDescendants_small_forest)
qed

theorem getAllSubcommunities_excludes_root_witness:
  "small_forest ! 0 \<in> set small_forest \<and> comm_id (small_forest ! 0) = ''r''
   \<and> map_option fst (getAllSubcommunities (community_service small_forest) ''r'' []) =
       Some (Inr [small_forest ! 1, small_forest ! 2, small_forest ! 4])
   \<and> ''r'' \<notin> comm_id ` set [small_forest ! 1, small_forest ! 2, small_forest ! 4]"
proof -
  from getAllSubcommunities_small_forest obtain log where
    "getAllSubcommunities (community_service small_forest) ''r'' [] =
       Some (Inr [small_forest ! 1, small_forest ! 2, small_forest ! 4], log)"
    by (cases "getAllSubcommunities (community_service small_forest) ''r'' []") auto
  from getAllSubcommunities_excludes_root [OF this]
  have "''r'' \<notin> comm_id ` set [small_forest ! 1, small_forest ! 2, small_forest ! 4]"
    by auto
  moreover have "small_forest ! 0 \<in> set small_forest \<and> comm_id (small_forest ! 0) = ''r''"
    by (simp add: small_forest_def)
  ultimately show ?thesis
    using getAllSubcommunities_small_forest by simp
qed

subsection \<open>Lookup by name\<close>

lemma find_filter_conv:
  "List.find P xs = (case filter P xs of [] \<Rightarrow> None | x # _ \<Rightarrow> Some x)"
  by (induction xs) auto

text \<open>
  Claim C5. Against a service that honours \<open>nameMatchMode: 'EXACT'\<close>,
  \<open>getCommunityByName\<close> issues one request and returns the first community of the
  catalog whose name equals the given name, character for character, and \<open>null\<close>
  when the catalog has none, whatever other names contain the given one.
\<close>

theorem getCommunityByName_exact:
  "getCommunityByName (community_service catalog) name log =
     (Inr (List.find (\<lambda>c. comm_name c = name) catalog),
      log @ [\<lparr>req_endpoint = ''/communities'',
               req_params = [''offset'' \<mapsto> PNum 0, ''limit'' \<mapsto> PNum 1000,
                 ''sortField'' \<mapsto> PStr ''NAME'', ''sortOrder'' \<mapsto> PStr ''ASC'',
                 ''excludeMeta'' \<mapsto> PBool True, ''name'' \<mapsto> PStr name,
                 ''nameMatchMode'' \<mapsto> PStr ''EXACT'']\<rparr>])"
proof -
  have hd: "take 1000 ys ! 0 = ys ! 0" if "ys \<noteq> []" for ys :: "community list"
    using that by (cases ys) simp_all
  show ?thesis
    by (cases "filter (\<lambda>c. comm_name c = name) catalog")
       (simp_all add: getCommunityByName_def getCommunities_request community_service_def
        paged_source_def name_filter_def param_nat_def find_filter_conv hd)
qed

theorem getCommunityByName_exact_witness:
  "fst (getCommunityByName (community_service small_forest) ''Finance'' []) =
     Inr (Some (small_forest ! 1))
   \<and> fst (getCommunityByName (community_service small_forest) ''Fin'' []) = Inr None
   \<and> fst (getCommunityByName (community_service small_forest) ''finance'' []) = Inr None"
  by (simp add: getCommunityByName_exact small_forest_def)

subsection \<open>A catalog of more than one page\<close>

lemma findDescendants_no_children:
  assumes "\<And>c. c \<in> set cs \<Longrightarrow> \<not> is_child_of c pid"
  shows "findDescendants cs pid = Some []"
proof -
  have "filter (\<lambda>c. is_child_of c pid) cs = []"
    using assms by (simp add: filter_empty_conv)
  then show ?thesis
    unfolding findDescendants_def
    by (subst loop_unfold [where D = "\<lambda>_. []"]) (auto simp: assms)
qed

lemma big_catalog_first_page:
  "take 1000 big_catalog =
     map (\<lambda>n. \<lparr>comm_id = replicate (Suc n) CHR ''i'', comm_name = replicate (Suc n) CHR ''a'',
                 description = None, parent = None\<rparr>) [0..<1000]"
  by (simp add: big_catalog_def)

lemma big_catalog_children:
  "filter (\<lambda>c. is_child_of c pid) big_catalog = (if pid = ''root'' then [last big_catalog] else [])"
  by (simp add: big_catalog_def is_child_of_def filter_empty_conv)

text \<open>
  Claim C9. The listing that \<open>getAllSubcommunities\<close> descends over is the reply to a
  single request with \<open>limit: 1000\<close>. On the catalog of 1001 communities the last
  one, a child of \<open>root\<close>, is not part of it: the result is empty, while the descent
  over the whole catalog finds the child and \<open>fetchAllPages\<close> on the same source
  returns the whole catalog.
\<close>

theorem getAllSubcommunities_first_page_only:
  "length big_catalog = 1001
   \<and> map_option fst (getAllSubcommunities (paged_source big_catalog) ''root'' []) = Some (Inr [])
   \<and> findDescendants big_catalog ''root'' = Some [last big_catalog]
   \<and> map_option fst (fetchAllPages (paged_source big_catalog) ''/communities'' Map.empty
        ''results'' []) = Some (Inr big_catalog)"
proof (intro conjI)
  show "length big_catalog = 1001"
    by (simp add: big_catalog_def)
  have "findDescendants (take 1000 big_catalog) ''root'' = Some []"
    by (rule findDescendants_no_children)
       (auto simp: big_catalog_first_page is_child_of_def)
  then show "map_option fst (getAllSubcommunities (paged_source big_catalog) ''root'' []) =
      Some (Inr [])"
    by (simp add: getAllSubcommunities_def getCommunities_request paged_source_def param_nat_def)
  have "findDescendants_loop big_catalog big_catalog (comm_id c) [] = Some []"
    if "c \<in> set big_catalog" "is_child_of c ''root''" for c
  proof -
    from that have "c \<in> set (filter (\<lambda>c. is_child_of c ''root'') big_catalog)"
      by simp
    then have "c = last big_catalog"
      by (simp add: big_catalog_children)
    then have "comm_id c = ''sub''" by (simp add: big_catalog_def)
    moreover have "findDescendants big_catalog ''sub'' = Some []"
      by (rule findDescendants_no_children)
         (use big_catalog_children [of "''sub''"] in \<open>auto simp: filter_empty_conv\<close>)
    ultimately show ?thesis by (simp add: findDescendants_def)
  qed
  then have "findDescendants_loop big_catalog big_catalog ''root'' [] =
      Some ([] @ concat (map (\<lambda>c. c # []) (filter (\<lambda>c. is_child_of c ''root'') big_catalog)))"
    by (rule loop_unfold [where D = "\<lambda>_. []"])
  then show "findDescendants big_catalog ''root'' = Some [last big_catalog]"
    by (simp add: findDescendants_def big_catalog_children)
  show "map_option fst (fetchAllPages (paged_source big_catalog) ''/communities'' Map.empty
        ''results'' []) = Some (Inr big_catalog)"
    unfolding fetchAllPages_def
    by (simp add: loop_paged_source [of big_catalog "''/communities''" Map.empty "[]" 0 "[]"])
qed

section \<open>Export options and aggregation\<close>

lemma sub_fetch_not_requested: "sub_fetch False fetch s = (Inr None, s)"
  by (simp add: sub_fetch_def)

lemma sub_fetch_result:
  "sub_fetch requested fetch s = (Inr r, s') \<Longrightarrow> (r = None) = (\<not> requested)"
  by (auto simp: sub_fetch_def split: if_splits prod.splits sum.splits)

lemma aggregate_attributes:
  assumes "aggregate axios_get a options s = (Inr r, s')"
  shows "(attributes r = None) =
           (\<not> (truthy options ''includeAssets'' \<and> truthy options ''includeAttributes''))"
proof (cases "truthy options ''includeAssets''")
  case False
  with assms show ?thesis by (auto simp: aggregate_def)
next
  case True
  with assms obtain attrs s1 where
    "sub_fetch (truthy options ''includeAttributes'')
       (getAssetAttributes axios_get (asset_id a)) s = (Inr attrs, s1)"
    and "attributes r = attrs"
    by (auto simp: aggregate_def split: prod.splits sum.splits)
  with True show ?thesis by (auto dest: sub_fetch_result)
qed

lemma configureExportOptions_declined:
  assumes "\<And>q. q_name q = ''includeAssets'' \<Longrightarrow> user q = Confirm False"
  shows "configureExportOptions user useGraphQL =
           [''includeAssets'' \<mapsto> Confirm False,
            ''outputDir'' \<mapsto> user \<lparr>q_type = ''input'', q_name = ''outputDir'',
               q_message = ''Output directory:'', q_default = Input ''./exports'',
               q_when = None\<rparr>]"
  by (simp add: configureExportOptions_def assms truthy_def)

text \<open>
  Claim C8. With \<open>includeAssets\<close> false, aggregation returns the bare asset and leaves
  the state of the remote untouched, whatever the three other flags say: no request is
  made. In a returned record the attributes facet is absent exactly when it was not
  requested; a requested facet with nothing found is an empty sequence. When the user
  declines the assets, \<open>configureExportOptions\<close> does not ask for the three flags and
  the options it returns hold none of them.
\<close>

theorem flags_inert_without_assets:
  "(\<not> truthy options ''includeAssets'' \<longrightarrow>
      aggregate axios_get a options s =
        (Inr \<lparr>base = a, attributes = None, relations = None, responsibilities = None\<rparr>, s))
   \<and> (aggregate axios_get a options s = (Inr r, s') \<longrightarrow>
        (attributes r = None) =
          (\<not> (truthy options ''includeAssets'' \<and> truthy options ''includeAttributes'')))
   \<and> ((\<forall>q. q_name q = ''includeAssets'' \<longrightarrow> user q = Confirm False) \<longrightarrow>
        configureExportOptions user useGraphQL ''includeAttributes'' = None
        \<and> configureExportOptions user useGraphQL ''includeRelations'' = None
        \<and> configureExportOptions user useGraphQL ''includeResponsibilities'' = None
        \<and> aggregate axios_get a (configureExportOptions user useGraphQL) s =
            (Inr \<lparr>base = a, attributes = None, relations = None, responsibilities = None\<rparr>, s))"
proof (intro conjI impI)
  assume "\<not> truthy options ''includeAssets''"
  then show "aggregate axios_get a options s =
        (Inr \<lparr>base = a, attributes = None, relations = None, responsibilities = None\<rparr>, s)"
    by (simp add: aggregate_def)
next
  assume "aggregate axios_get a options s = (Inr r, s')"
  then show "(attributes r = None) =
          (\<not> (truthy options ''includeAssets'' \<and> truthy options ''includeAttributes''))"
    by (rule aggregate_attributes)
next
  assume "\<forall>q. q_name q = ''includeAssets'' \<longrightarrow> user q = Confirm False"
  then have opts: "configureExportOptions user useGraphQL =
           [''includeAssets'' \<mapsto> Confirm False,
            ''outputDir'' \<mapsto> user \<lparr>q_type = ''input'', q_name = ''outputDir'',
               q_message = ''Output directory:'', q_default = Input ''./exports'',
               q_when = None\<rparr>]"
    by (intro configureExportOptions_declined) simp
  show "configureExportOptions user useGraphQL ''includeAttributes'' = None"
    and "configureExportOptions user useGraphQL ''includeRelations'' = None"
    and "configureExportOptions user useGraphQL ''includeResponsibilities'' = None"
    and "aggregate axios_get a (configureExportOptions user useGraphQL) s =
            (Inr \<lparr>base = a, attributes = None, relations = None, responsibilities = None\<rparr>, s)"
    by (simp_all add: opts aggregate_def truthy_def)
qed

theorem flags_inert_without_assets_witness:
  "aggregate (paged_source [1, 2 :: nat]) widget
       [''includeAssets'' \<mapsto> Confirm False, ''includeAttributes'' \<mapsto> Confirm True] [] =
     (Inr \<lparr>base = widget, attributes = None, relations = None, responsibilities = None\<rparr>, [])
   \<and> aggregate (paged_source [1, 2 :: nat]) widget
       [''includeAssets'' \<mapsto> Confirm True, ''includeAttributes'' \<mapsto> Confirm False,
        ''includeRelations'' \<mapsto> Confirm True] [] =
     (Inr \<lparr>base = widget, attributes = None, relations = Some [1, 2], responsibilities = None\<rparr>,
      [\<lparr>req_endpoint = ''/assets/42/relations'',
         req_params = [''offset'' \<mapsto> PNum 0, ''limit'' \<mapsto> PNum 1000]\<rparr>])
   \<and> \<not> (truthy [''includeAssets'' \<mapsto> Confirm True, ''includeAttributes'' \<mapsto> Confirm False,
        ''includeRelations'' \<mapsto> Confirm True] ''includeAssets''
      \<and> truthy [''includeAssets'' \<mapsto> Confirm True, ''includeAttributes'' \<mapsto> Confirm False,
        ''includeRelations'' \<mapsto> Confirm True] ''includeAttributes'')
   \<and> aggregate (paged_source ([] :: nat list)) widget
       [''includeAssets'' \<mapsto> Confirm True, ''includeAttributes'' \<mapsto> Confirm True] [] =
     (Inr \<lparr>base = widget, attributes = Some [], relations = None, responsibilities = None\<rparr>,
      [\<lparr>req_endpoint = ''/assets/42/attributes'', req_params = Map.empty\<rparr>])
   \<and> configureExportOptions declines_assets True ''includeAttributes'' = None
   \<and> configureExportOptions declines_assets True ''includeRelations'' = None
   \<and> configureExportOptions declines_assets True ''includeResponsibilities'' = None
   \<and> aggregate (paged_source [1, 2 :: nat]) widget (configureExportOptions declines_assets True) [] =
     (Inr \<lparr>base = widget, attributes = None, relations = None, responsibilities = None\<rparr>, [])"
proof -
  let ?off = "[''includeAssets'' \<mapsto> Confirm False, ''includeAttributes'' \<mapsto> Confirm True]"
  let ?rel = "[''includeAssets'' \<mapsto> Confirm True, ''includeAttributes'' \<mapsto> Confirm False,
        ''includeRelations'' \<mapsto> Confirm True]"
  let ?r = "\<lparr>base = widget, attributes = None, relations = Some [1, 2 :: nat],
        responsibilities = None\<rparr>"
  let ?log = "[\<lparr>req_endpoint = ''/assets/42/relations'',
         req_params = [''offset'' \<mapsto> PNum 0, ''limit'' \<mapsto> PNum 1000]\<rparr>]"
  note unfold = aggregate_def sub_fetch_def truthy_def getAssetAttributes_def
    getAssetRelations_def getAssetResponsibilities_def makeRequest_passes paged_source_def
    param_nat_def widget_def
  note declined = flags_inert_without_assets [where options = ?off
      and axios_get = "paged_source [1, 2 :: nat]" and a = widget and s = "[]"
      and user = declines_assets and useGraphQL = True]
  note requested = flags_inert_without_assets [where options = ?rel
      and axios_get = "paged_source [1, 2 :: nat]" and a = widget and s = "[]"
      and r = ?r and s' = ?log]
  have off: "\<not> truthy ?off ''includeAssets''"
    by (simp add: truthy_def)
  have rel: "aggregate (paged_source [1, 2 :: nat]) widget ?rel [] = (Inr ?r, ?log)"
    by (simp add: unfold)
  have none: "aggregate (paged_source ([] :: nat list)) widget
       [''includeAssets'' \<mapsto> Confirm True, ''includeAttributes'' \<mapsto> Confirm True] [] =
     (Inr \<lparr>base = widget, attributes = Some [], relations = None, responsibilities = None\<rparr>,
      [\<lparr>req_endpoint = ''/assets/42/attributes'', req_params = Map.empty\<rparr>])"
    by (simp add: unfold)
  have user: "\<forall>q. q_name q = ''includeAssets'' \<longrightarrow> declines_assets q = Confirm False"
    by (simp add: declines_assets_def)
  note c1 = declined [THEN conjunct1, THEN mp, OF off]
  note c2 = requested [THEN conjunct2, THEN conjunct1, THEN mp, OF rel]
  note c3 = declined [THEN conjunct2, THEN conjunct2, THEN mp, OF user]
  from c2 have "\<not> (truthy ?rel ''includeAssets'' \<and> truthy ?rel ''includeAttributes'')"
    by simp
  with c1 c3 rel none show ?thesis
    by (intro conjI) simp_all
qed

section \<open>The batch\<close>

lemma exportMultipleCommunities_length:
  "length (fst (exportMultipleCommunities exportCommunity units options s)) = length units"
  by (induction units arbitrary: s) (auto split: prod.splits sum.splits, (metis fst_conv)+)

lemma exportMultipleCommunities_names:
  "map result_community (fst (exportMultipleCommunities exportCommunity units options s)) =
     map comm_name units"
  by (induction units arbitrary: s) (auto split: prod.splits sum.splits, (metis fst_conv)+)

lemma exportMultipleCommunities_append:
  "exportMultipleCommunities exportCommunity (before @ after) options s =
     (case exportMultipleCommunities exportCommunity before options s of
        (rs1, s1) \<Rightarrow>
          (case exportMultipleCommunities exportCommunity after options s1 of
             (rs2, s2) \<Rightarrow> (rs1 @ rs2, s2)))"
  by (induction before arbitrary: s) (auto split: prod.splits sum.splits)

text \<open>
  Claim C1. \<open>exportMultipleCommunities\<close> returns one result per unit, in input order.
  A unit whose pipeline fails, at any place of the batch, is recorded as a failure with
  its name and the failure's description, between the results of the units before it
  and those of the units after it, which run from the state the failed unit left. With
  exactly one unit the failure of \<open>exportCommunity\<close> is passed on unwrapped.
\<close>

theorem failure_isolated_per_unit:
  "length (fst (exportMultipleCommunities exportCommunity units options s)) = length units
   \<and> map result_community (fst (exportMultipleCommunities exportCommunity units options s)) =
       map comm_name units
   \<and> (exportMultipleCommunities exportCommunity before options s = (rs1, s1)
        \<and> exportCommunity u options s1 = (Inl e, s2)
        \<and> exportMultipleCommunities exportCommunity after options s2 = (rs2, s3)
      \<longrightarrow> exportMultipleCommunities exportCommunity (before @ u # after) options s =
            (rs1 @ [\<lparr>result_success = False, result_community = comm_name u,
                      result_error = Some (message e)\<rparr>] @ rs2, s3))
   \<and> (exportMultipleCommunities exportCommunity before options s = (rs1, s1)
        \<and> exportCommunity u options s1 = (Inr out, s2)
        \<and> exportMultipleCommunities exportCommunity after options s2 = (rs2, s3)
      \<longrightarrow> exportMultipleCommunities exportCommunity (before @ u # after) options s =
            (rs1 @ [\<lparr>result_success = True, result_community = comm_name u,
                      result_error = None\<rparr>] @ rs2, s3))
   \<and> (length units \<noteq> 1 \<longrightarrow>
        performRestExport exportCommunity units options s =
          (Inr (fst (exportMultipleCommunities exportCommunity units options s)),
           snd (exportMultipleCommunities exportCommunity units options s)))
   \<and> (exportCommunity u options s = (Inl e, s') \<longrightarrow>
        performRestExport exportCommunity [u] options s = (Inl e, s'))"
  by (auto simp: exportMultipleCommunities_length exportMultipleCommunities_names
      exportMultipleCommunities_append performRestExport_def split: prod.splits)

theorem failure_isolated_per_unit_witness:
  "exportMultipleCommunities unit2_fails
       [unit_named ''unit1'', unit_named ''unit2'', unit_named ''unit3''] () [] =
     ([\<lparr>result_success = True, result_community = ''unit1'', result_error = None\<rparr>,
       \<lparr>result_success = False, result_community = ''unit2'',
          result_error = Some ''asset fetch failed''\<rparr>,
       \<lparr>result_success = True, result_community = ''unit3'', result_error = None\<rparr>],
      [''unit1'', ''unit2'', ''unit3''])
   \<and> fst (performRestExport unit2_fails
       [unit_named ''unit1'', unit_named ''unit2'', unit_named ''unit3''] () []) =
     Inr [\<lparr>result_success = True, result_community = ''unit1'', result_error = None\<rparr>,
       \<lparr>result_success = False, result_community = ''unit2'',
          result_error = Some ''asset fetch failed''\<rparr>,
       \<lparr>result_success = True, result_community = ''unit3'', result_error = None\<rparr>]
   \<and> performRestExport unit2_fails [unit_named ''unit2''] () [] =
     (Inl (Error ''asset fetch failed''), [''unit2''])"
proof -
  let ?ok1 = "\<lparr>result_success = True, result_community = ''unit1'', result_error = None\<rparr>"
  let ?ok3 = "\<lparr>result_success = True, result_community = ''unit3'', result_error = None\<rparr>"
  note inst = failure_isolated_per_unit [where exportCommunity = unit2_fails and options = "()"
      and s = "[]" and units = "[unit_named ''unit1'', unit_named ''unit2'', unit_named ''unit3'']"
      and before = "[unit_named ''unit1'']" and u = "unit_named ''unit2''"
      and after = "[unit_named ''unit3'']" and ?rs1.0 = "[?ok1]" and ?rs2.0 = "[?ok3]"
      and ?s1.0 = "[''unit1'']" and ?s2.0 = "[''unit1'', ''unit2'']"
      and ?s3.0 = "[''unit1'', ''unit2'', ''unit3'']" and e = "Error ''asset fetch failed''"
      and s' = "[''unit2'']"]
  have run: "exportMultipleCommunities unit2_fails [unit_named ''unit1''] () [] = ([?ok1], [''unit1''])
      \<and> unit2_fails (unit_named ''unit2'') () [''unit1''] =
          (Inl (Error ''asset fetch failed''), [''unit1'', ''unit2''])
      \<and> exportMultipleCommunities unit2_fails [unit_named ''unit3''] () [''unit1'', ''unit2''] =
          ([?ok3], [''unit1'', ''unit2'', ''unit3''])"
    by (simp add: unit2_fails_def unit_named_def)
  have alone: "unit2_fails (unit_named ''unit2'') () [] =
      (Inl (Error ''asset fetch failed''), [''unit2''])"
    by (simp add: unit2_fails_def unit_named_def)
  have many: "length [unit_named ''unit1'', unit_named ''unit2'', unit_named ''unit3''] \<noteq> 1"
    by simp
  have batch: "exportMultipleCommunities unit2_fails
       [unit_named ''unit1'', unit_named ''unit2'', unit_named ''unit3''] () [] =
     ([?ok1, \<lparr>result_success = False, result_community = ''unit2'',
          result_error = Some ''asset fetch failed''\<rparr>, ?ok3],
      [''unit1'', ''unit2'', ''unit3''])"
    using inst [THEN conjunct2, THEN conjunct2, THEN conjunct1, THEN mp, OF run]
    by (simp add: unit_named_def)
  have summary: "performRestExport unit2_fails
       [unit_named ''unit1'', unit_named ''unit2'', unit_named ''unit3''] () [] =
     (Inr (fst (exportMultipleCommunities unit2_fails
       [unit_named ''unit1'', unit_named ''unit2'', unit_named ''unit3''] () [])),
      snd (exportMultipleCommunities unit2_fails
       [unit_named ''unit1'', unit_named ''unit2'', unit_named ''unit3''] () []))"
    by (rule inst [THEN conjunct2, THEN conjunct2, THEN conjunct2, THEN conjunct2,
          THEN conjunct1, THEN mp, OF many])
  have single: "performRestExport unit2_fails [unit_named ''unit2''] () [] =
     (Inl (Error ''asset fetch failed''), [''unit2''])"
    by (rule inst [THEN conjunct2, THEN conjunct2, THEN conjunct2, THEN conjunct2,
          THEN conjunct2, THEN mp, OF alone])
  show ?thesis
    unfolding summary batch single by simp
qed

end
